theory Spec2Isabelle
  imports Main "HOL-Library.Word"
begin

section \<open>Strings of the program\<close>

text \<open>
  A JavaScript string is a sequence of 16-bit code units, and a regular expression
  without the \<open>u\<close> flag works on code units. \<open>js\<close> writes an ASCII literal as such
  a sequence.
\<close>

type_synonym cu = "16 word"
type_synonym jsstring = "cu list"

definition js :: "string \<Rightarrow> jsstring" where
  "js s = map (\<lambda>c. of_nat (of_char c)) s"

abbreviation TAB :: cu where "TAB \<equiv> 0x09"
abbreviation NL :: cu where "NL \<equiv> 0x0A"
abbreviation SP :: cu where "SP \<equiv> 0x20"
abbreviation STAR :: cu where "STAR \<equiv> 0x2A"
abbreviation SLASH :: cu where "SLASH \<equiv> 0x2F"
abbreviation COLON :: cu where "COLON \<equiv> 0x3A"
abbreviation SEMI :: cu where "SEMI \<equiv> 0x3B"
abbreviation LBRACE :: cu where "LBRACE \<equiv> 0x7B"
abbreviation RBRACE :: cu where "RBRACE \<equiv> 0x7D"

text \<open>
  The class \<open>\s\<close> of ECMAScript: tab, line feed, vertical tab, form feed, carriage
  return, space, no-break space, U+1680, U+2000 to U+200A, the line and paragraph
  separators, U+202F, U+205F, U+3000 and the byte order mark.
\<close>

definition isSpace :: "cu \<Rightarrow> bool" where
  "isSpace c = (c = TAB \<or> c = NL \<or> c = 0x0B \<or> c = 0x0C \<or> c = 0x0D \<or> c = SP \<or>
     c = 0xA0 \<or> c = 0x1680 \<or> (0x2000 \<le> c \<and> c \<le> 0x200A) \<or> c = 0x2028 \<or>
     c = 0x2029 \<or> c = 0x202F \<or> c = 0x205F \<or> c = 0x3000 \<or> c = 0xFEFF)"

text \<open>The class \<open>[{}:;]\<close>.\<close>

definition isPunct :: "cu \<Rightarrow> bool" where
  "isPunct c = (c = LBRACE \<or> c = RBRACE \<or> c = COLON \<or> c = SEMI)"

section \<open>minifyCss\<close>

text \<open>
  \<open>.replace(/\/\*[\s\S]*?\*\//g, '')\<close>. A match starts at \<open>/*\<close> and, the star
  being lazy, ends with the first \<open>*/\<close> that begins at least two code units later.
  \<open>closeComment\<close> is given the text after \<open>/*\<close> and returns what follows that
  first \<open>*/\<close>; \<open>matchComment\<close> is the attempt to match at the start of a text.
  Without a closing \<open>*/\<close> there is no match and the scan moves on by one code unit.
\<close>

fun closeComment :: "jsstring \<Rightarrow> jsstring option" where
  "closeComment (a # b # r) =
     (if a = STAR \<and> b = SLASH then Some r else closeComment (b # r))"
| "closeComment _ = None"

definition matchComment :: "jsstring \<Rightarrow> jsstring option" where
  "matchComment s =
     (case s of
        a # b # r \<Rightarrow> if a = SLASH \<and> b = STAR then closeComment r else None
      | _ \<Rightarrow> None)"

function stripComments :: "jsstring \<Rightarrow> jsstring" where
  "stripComments [] = []"
| "stripComments (c # r) =
     (case matchComment (c # r) of
        Some rest \<Rightarrow> stripComments rest
      | None \<Rightarrow> c # stripComments r)"
  by pat_completeness auto
termination
proof (relation "measure length")
  show "wf (measure length)" by simp
next
  fix c :: cu and r rest :: jsstring
  assume m: "matchComment (c # r) = Some rest"
  have shorter: "closeComment s = Some t \<Longrightarrow> length t < length s" for s t
    by (induction s rule: closeComment.induct) (auto split: if_splits)
  from m have "length rest < length (c # r)"
    by (auto simp: matchComment_def split: list.splits if_splits dest: shorter)
  then show "(rest, c # r) \<in> measure length" by simp
next
  fix c :: cu and r :: jsstring
  show "(r, c # r) \<in> measure length" by simp
qed

text \<open>
  \<open>.replace(/\s+/g, ' ')\<close>: a maximal run of white space becomes one space.
\<close>

function collapseWs :: "jsstring \<Rightarrow> jsstring" where
  "collapseWs [] = []"
| "collapseWs (c # r) =
     (if isSpace c then SP # collapseWs (dropWhile isSpace r) else c # collapseWs r)"
  by pat_completeness auto
termination
  by (relation "measure length") (auto simp: less_Suc_eq_le length_dropWhile_le)

text \<open>
  \<open>.replace(/\s*([{}:;])\s*/g, '$1')\<close>. At a position the greedy \<open>\s*\<close> takes the
  whole run of white space; the match succeeds when a character of the class follows
  (backtracking into the run cannot help, it only exposes white space), and then takes
  the white space after that character too. The replacement is the character alone.
  Where there is no match the code unit is kept and the scan moves on by one.
\<close>

function trimPunct :: "jsstring \<Rightarrow> jsstring" where
  "trimPunct [] = []"
| "trimPunct (c # r) =
     (case dropWhile isSpace (c # r) of
        [] \<Rightarrow> c # trimPunct r
      | p # rest \<Rightarrow>
          if isPunct p then p # trimPunct (dropWhile isSpace rest)
          else c # trimPunct r)"
  by pat_completeness auto
termination
proof (relation "measure length")
  show "wf (measure length)" by simp
next
  fix c :: cu and r :: jsstring
  show "(r, c # r) \<in> measure length" by simp
next
  fix c p :: cu and r rest :: jsstring
  assume d: "dropWhile isSpace (c # r) = p # rest"
  have "length (dropWhile isSpace (c # r)) \<le> length (c # r)"
    by (rule length_dropWhile_le)
  with d have "length rest < length (c # r)" by simp
  moreover have "length (dropWhile isSpace rest) \<le> length rest"
    by (rule length_dropWhile_le)
  ultimately show "(dropWhile isSpace rest, c # r) \<in> measure length" by simp
next
  fix c :: cu and r :: jsstring
  show "(r, c # r) \<in> measure length" by simp
qed

text \<open>
  \<open>.replace(/;}/g, '}')\<close>: one pass from left to right; after a match the scan
  goes on behind the brace.
\<close>

fun dropSemi :: "jsstring \<Rightarrow> jsstring" where
  "dropSemi (a # b # r) =
     (if a = SEMI \<and> b = RBRACE then RBRACE # dropSemi r else a # dropSemi (b # r))"
| "dropSemi s = s"

definition minifyCss :: "jsstring \<Rightarrow> jsstring" where
  "minifyCss css = dropSemi (trimPunct (collapseWs (stripComments css)))"

section \<open>generateSourceMap\<close>

text \<open>
  \<open>cssContent.split('\n')\<close>: the text up to the first line feed is a segment, and
  the split goes on behind it; a text without a line feed, the empty one included, is
  one segment.
\<close>

function splitNl :: "jsstring \<Rightarrow> jsstring list" where
  "splitNl s =
     (case dropWhile (\<lambda>c. c \<noteq> NL) s of
        [] \<Rightarrow> [s]
      | nl # rest \<Rightarrow> takeWhile (\<lambda>c. c \<noteq> NL) s # splitNl rest)"
  by pat_completeness auto
termination
proof (relation "measure length")
  show "wf (measure length)" by simp
next
  fix s rest :: jsstring and nl :: cu
  assume d: "dropWhile (\<lambda>c. c \<noteq> NL) s = nl # rest"
  have "length (dropWhile (\<lambda>c. c \<noteq> NL) s) \<le> length s"
    by (rule length_dropWhile_le)
  with d show "(rest, s) \<in> measure length" by simp
qed

text \<open>
  The template literal turns \<open>index + 1\<close> into text: the decimal digits of a
  positive integer, most significant first.
\<close>

fun digitsOf :: "nat \<Rightarrow> jsstring" where
  "digitsOf n =
     (if n < 10 then [of_nat (48 + n)]
      else digitsOf (n div 10) @ [of_nat (48 + n mod 10)])"

record mapEntry =
  original :: jsstring
  generated :: jsstring

record sourceMap =
  version :: nat
  "file" :: jsstring
  sources :: "jsstring list"
  mappings :: "mapEntry list"

definition generateSourceMap :: "jsstring \<Rightarrow> jsstring \<Rightarrow> sourceMap" where
  "generateSourceMap cssContent cssFileName =
     (let lines = splitNl cssContent;
          mapEntries = map (\<lambda>(index, line).
              \<lparr>original = line, generated = digitsOf (index + 1) @ js '':0''\<rparr>)
            (enumerate 0 lines)
      in \<lparr>version = 3, file = cssFileName, sources = [cssFileName],
          mappings = mapEntries\<rparr>)"

section \<open>Files and the console\<close>

text \<open>
  A path is the list of its components: \<open>path.join(dir, name)\<close> adds a component,
  \<open>path.dirname\<close> drops the last one. The file system maps a path to a file with
  its text or to a directory with the names \<open>readdirSync\<close> lists. Every call of
  \<open>node:fs\<close> is recorded in \<open>ops\<close>, every line printed in \<open>stdout\<close> or
  \<open>stderr\<close>. A call that throws is a result \<open>Inl\<close> (or \<open>Some\<close>) with the error;
  nothing in the program catches it, so the run ends there.
\<close>

type_synonym path = "jsstring list"

datatype node = File jsstring | Dir "jsstring list"

datatype fsop =
  Exists path | ReadDir path | Stat path | ReadFile path | WriteFile path jsstring

datatype msg = Starting path | MissingDir path | Minified path path | Completed

datatype error = ENOENT path | ENOTDIR path | EISDIR path | StackExhausted

record world =
  fs :: "path \<rightharpoonup> node"
  ops :: "fsop list"
  stdout :: "msg list"
  stderr :: "msg list"

definition logged :: "fsop \<Rightarrow> world \<Rightarrow> world" where
  "logged op w = w\<lparr>ops := ops w @ [op]\<rparr>"

definition existsSync :: "path \<Rightarrow> world \<Rightarrow> bool \<times> world" where
  "existsSync p w = (fs w p \<noteq> None, logged (Exists p) w)"

definition readdirSync :: "path \<Rightarrow> world \<Rightarrow> (error + jsstring list) \<times> world" where
  "readdirSync p w =
     (case fs w p of
        None \<Rightarrow> Inl (ENOENT p)
      | Some (File text) \<Rightarrow> Inl (ENOTDIR p)
      | Some (Dir names) \<Rightarrow> Inr names,
      logged (ReadDir p) w)"

text \<open>\<open>statSync(p).isDirectory()\<close>.\<close>

definition statSync :: "path \<Rightarrow> world \<Rightarrow> (error + bool) \<times> world" where
  "statSync p w =
     (case fs w p of
        None \<Rightarrow> Inl (ENOENT p)
      | Some (File text) \<Rightarrow> Inr False
      | Some (Dir names) \<Rightarrow> Inr True,
      logged (Stat p) w)"

definition readFileSync :: "path \<Rightarrow> world \<Rightarrow> (error + jsstring) \<times> world" where
  "readFileSync p w =
     (case fs w p of
        None \<Rightarrow> Inl (ENOENT p)
      | Some (File text) \<Rightarrow> Inr text
      | Some (Dir names) \<Rightarrow> Inl (EISDIR p),
      logged (ReadFile p) w)"

text \<open>
  \<open>writeFileSync\<close> creates the file or replaces its text; it throws on a directory
  and where the parent is not a directory.
\<close>

definition writeFileSync :: "path \<Rightarrow> jsstring \<Rightarrow> world \<Rightarrow> error option \<times> world" where
  "writeFileSync p text w =
     (let w' = logged (WriteFile p text) w in
      case rev p of
        [] \<Rightarrow> (Some (EISDIR p), w')
      | name # up \<Rightarrow>
          (case fs w p of
             Some (Dir names) \<Rightarrow> (Some (EISDIR p), w')
           | _ \<Rightarrow>
               (case fs w (rev up) of
                  Some (Dir names) \<Rightarrow>
                    (None, w'\<lparr>fs := (fs w)
                       (rev up \<mapsto> Dir (if name \<in> set names then names else names @ [name]),
                        p \<mapsto> File text)\<rparr>)
                | Some (File t) \<Rightarrow> (Some (ENOTDIR p), w')
                | None \<Rightarrow> (Some (ENOENT p), w'))))"

definition endsWith :: "jsstring \<Rightarrow> jsstring \<Rightarrow> bool" where
  "endsWith s suffix =
     (length suffix \<le> length s \<and> drop (length s - length suffix) s = suffix)"

text \<open>
  \<open>path.basename(p, ext)\<close>: the last component, without \<open>ext\<close> when it ends
  with it and is more than \<open>ext\<close> alone.
\<close>

definition basename :: "path \<Rightarrow> jsstring \<Rightarrow> jsstring" where
  "basename p ext =
     (case rev p of
        [] \<Rightarrow> []
      | name # up \<Rightarrow>
          if endsWith name ext \<and> name \<noteq> ext
          then take (length name - length ext) name else name)"

definition dirname :: "path \<Rightarrow> path" where
  "dirname p = butlast p"

definition join :: "path \<Rightarrow> jsstring \<Rightarrow> path" where
  "join dir name = dir @ [name]"

section \<open>minifyCssFile, processDirectory, startMinification\<close>

text \<open>
  \<open>stringify\<close> stands for \<open>JSON.stringify(sourceMap, null, 2)\<close>, which is not
  code of the program.
\<close>

definition minifyCssFile ::
  "(sourceMap \<Rightarrow> jsstring) \<Rightarrow> path \<Rightarrow> world \<Rightarrow> error option \<times> world" where
  "minifyCssFile stringify cssFilePath w =
     (case readFileSync cssFilePath w of
        (Inl e, w1) \<Rightarrow> (Some e, w1)
      | (Inr cssContent, w1) \<Rightarrow>
          (let minifiedCss = minifyCss cssContent;
               cssDir = dirname cssFilePath;
               baseFileName = basename cssFilePath (js ''.css'');
               minCssFilePath = join cssDir (baseFileName @ js ''.min.css'');
               mapFilePath = join cssDir (baseFileName @ js ''.css.map'')
           in case writeFileSync minCssFilePath minifiedCss w1 of
                (Some e, w2) \<Rightarrow> (Some e, w2)
              | (None, w2) \<Rightarrow>
                  (let sourceMap = generateSourceMap cssContent (baseFileName @ js ''.css'')
                   in case writeFileSync mapFilePath (stringify sourceMap) w2 of
                        (Some e, w3) \<Rightarrow> (Some e, w3)
                      | (None, w3) \<Rightarrow>
                          (None, w3\<lparr>stdout := stdout w3 @
                             [Minified cssFilePath minCssFilePath]\<rparr>))))"

text \<open>
  \<open>processDirectory\<close> calls itself for every subdirectory. \<open>depth\<close> is the number
  of nested calls the stack still has room for; beyond it the engine throws.
  \<open>forEachFile\<close> is the body of \<open>files.forEach\<close> over the names that are left.
\<close>

fun processDirectory ::
    "(sourceMap \<Rightarrow> jsstring) \<Rightarrow> nat \<Rightarrow> path \<Rightarrow> world \<Rightarrow> error option \<times> world"
  and forEachFile ::
    "(sourceMap \<Rightarrow> jsstring) \<Rightarrow> nat \<Rightarrow> path \<Rightarrow> jsstring list \<Rightarrow> world \<Rightarrow> error option \<times> world"
where
  "processDirectory stringify 0 dirPath w = (Some StackExhausted, w)"
| "processDirectory stringify (Suc depth) dirPath w =
     (case readdirSync dirPath w of
        (Inl e, w1) \<Rightarrow> (Some e, w1)
      | (Inr files, w1) \<Rightarrow> forEachFile stringify depth dirPath files w1)"
| "forEachFile stringify depth dirPath [] w = (None, w)"
| "forEachFile stringify depth dirPath (file' # files) w =
     (let filePath = join dirPath file' in
      case statSync filePath w of
        (Inl e, w1) \<Rightarrow> (Some e, w1)
      | (Inr isDirectory, w1) \<Rightarrow>
          (case (if isDirectory then processDirectory stringify depth filePath w1
                 else if endsWith file' (js ''.css'') \<and> \<not> endsWith file' (js ''.min.css'')
                 then minifyCssFile stringify filePath w1
                 else (None, w1)) of
             (Some e, w2) \<Rightarrow> (Some e, w2)
           | (None, w2) \<Rightarrow> forEachFile stringify depth dirPath files w2))"

text \<open>\<open>process.argv[2] || DIRECTORY_META_NAME\<close>: a missing or empty argument is falsy.\<close>

definition targetDirectory :: "path option \<Rightarrow> path \<Rightarrow> path" where
  "targetDirectory argv2 metaName =
     (case argv2 of None \<Rightarrow> metaName | Some p \<Rightarrow> if p = [] then metaName else p)"

definition startMinification ::
  "(sourceMap \<Rightarrow> jsstring) \<Rightarrow> nat \<Rightarrow> path \<Rightarrow> world \<Rightarrow> error option \<times> world" where
  "startMinification stringify depth rootDirectory w =
     (let w0 = w\<lparr>stdout := stdout w @ [Starting rootDirectory]\<rparr> in
      case existsSync rootDirectory w0 of
        (False, w1) \<Rightarrow> (None, w1\<lparr>stderr := stderr w1 @ [MissingDir rootDirectory]\<rparr>)
      | (True, w1) \<Rightarrow>
          (case processDirectory stringify depth rootDirectory w1 of
             (Some e, w2) \<Rightarrow> (Some e, w2)
           | (None, w2) \<Rightarrow> (None, w2\<lparr>stdout := stdout w2 @ [Completed]\<rparr>)))"

section \<open>Properties of texts\<close>

text \<open>
  \<open>occurs2 x y s\<close>: the two code units \<open>x\<close>, \<open>y\<close> occur in \<open>s\<close> side by side.
  \<open>hasComment s\<close>: the comment pattern matches somewhere in \<open>s\<close>. The relations
  \<open>nodbl\<close>, \<open>tight\<close> and \<open>noSemiBrace\<close> are what two neighbours have to satisfy in
  a text without a double space, without a space next to one of \<open>{ } : ;\<close>, and
  without \<open>;}\<close>. \<open>startsPunct s\<close>: the third pattern matches at the start of \<open>s\<close>.
\<close>

fun occurs2 :: "cu \<Rightarrow> cu \<Rightarrow> jsstring \<Rightarrow> bool" where
  "occurs2 x y (a # b # r) = ((a = x \<and> b = y) \<or> occurs2 x y (b # r))"
| "occurs2 x y s = False"

fun hasComment :: "jsstring \<Rightarrow> bool" where
  "hasComment [] = False"
| "hasComment (c # r) = (matchComment (c # r) \<noteq> None \<or> hasComment r)"

definition nodbl :: "cu \<Rightarrow> cu \<Rightarrow> bool" where
  "nodbl a b = (\<not> (a = SP \<and> b = SP))"

definition tight :: "cu \<Rightarrow> cu \<Rightarrow> bool" where
  "tight a b = (\<not> (isSpace a \<and> isPunct b) \<and> \<not> (isPunct a \<and> isSpace b))"

definition noSemiBrace :: "cu \<Rightarrow> cu \<Rightarrow> bool" where
  "noSemiBrace a b = (\<not> (a = SEMI \<and> b = RBRACE))"

definition startsPunct :: "jsstring \<Rightarrow> bool" where
  "startsPunct s = (case dropWhile isSpace s of [] \<Rightarrow> False | p # rest \<Rightarrow> isPunct p)"

text \<open>\<open>Array.prototype.join('\n')\<close>, and the number a text of decimal digits denotes.\<close>

fun joinNl :: "jsstring list \<Rightarrow> jsstring" where
  "joinNl [] = []"
| "joinNl [x] = x"
| "joinNl (x # y # r) = x @ NL # joinNl (y # r)"

definition decValue :: "jsstring \<Rightarrow> nat" where
  "decValue s = foldl (\<lambda>acc d. 10 * acc + (unat d - 48)) 0 s"

declare splitNl.simps [simp del]
declare digitsOf.simps [simp del]

section \<open>Code units and neighbours\<close>

lemma punct_not_space: "isPunct c \<Longrightarrow> \<not> isSpace c"
  unfolding isPunct_def isSpace_def by (elim disjE) simp_all

lemma isSpace_SP: "isSpace SP"
  by (simp add: isSpace_def)

lemma punct_not_SP: "isPunct c \<Longrightarrow> c \<noteq> SP"
  using punct_not_space isSpace_SP by blast

lemma isPunct_SEMI: "isPunct SEMI"
  by (simp add: isPunct_def)

lemma isPunct_RBRACE: "isPunct RBRACE"
  by (simp add: isPunct_def)

lemma successively_tl: "successively P (x # xs) \<Longrightarrow> successively P xs"
  by (cases xs) simp_all

lemma successively_hd: "successively P (x # xs) \<Longrightarrow> xs \<noteq> [] \<Longrightarrow> P x (hd xs)"
  by (cases xs) simp_all

lemma successively_ConsI:
  "(xs \<noteq> [] \<Longrightarrow> P x (hd xs)) \<Longrightarrow> successively P xs \<Longrightarrow> successively P (x # xs)"
  by (cases xs) simp_all

lemma successively_dropWhile: "successively P xs \<Longrightarrow> successively P (dropWhile Q xs)"
  by (induction xs) (auto dest: successively_tl)

lemma successively_adjacent: "successively P (p @ a # b # t) \<Longrightarrow> P a b"
  by (induction p) (auto dest: successively_tl)

lemma occurs2_iff: "occurs2 x y s \<longleftrightarrow> (\<exists>p t. s = p @ [x, y] @ t)"
proof (induction x y s rule: occurs2.induct)
  case (1 x y a b r)
  show ?case
  proof
    assume "occurs2 x y (a # b # r)"
    then consider "a = x \<and> b = y" | "occurs2 x y (b # r)" by auto
    then show "\<exists>p t. a # b # r = p @ [x, y] @ t"
    proof cases
      case 1
      then have "a # b # r = [] @ [x, y] @ r" by simp
      then show ?thesis by blast
    next
      case 2
      with 1 obtain p t where "b # r = p @ [x, y] @ t" by auto
      then have "a # b # r = (a # p) @ [x, y] @ t" by simp
      then show ?thesis by blast
    qed
  next
    assume "\<exists>p t. a # b # r = p @ [x, y] @ t"
    then obtain p t where e: "a # b # r = p @ [x, y] @ t" by blast
    show "occurs2 x y (a # b # r)"
    proof (cases p)
      case Nil
      with e show ?thesis by simp
    next
      case (Cons q qs)
      with e have "b # r = qs @ [x, y] @ t" by simp
      then have "occurs2 x y (b # r)" using 1 by blast
      then show ?thesis by simp
    qed
  qed
qed (simp_all add: Cons_eq_append_conv)

lemma occurs2_successively:
  "\<not> occurs2 x y s \<longleftrightarrow> successively (\<lambda>a b. \<not> (a = x \<and> b = y)) s"
  by (induction x y s rule: occurs2.induct) auto

lemma occurs2_Cons: "\<not> occurs2 x y (c # s) \<Longrightarrow> \<not> occurs2 x y s"
  by (cases s) auto

section \<open>The white space rule\<close>

lemma collapseWs_Nil_iff: "collapseWs s = [] \<longleftrightarrow> s = []"
  by (cases s) auto

lemma plain_collapseWs: "c \<in> set (collapseWs s) \<Longrightarrow> isSpace c \<Longrightarrow> c = SP"
  by (induction s rule: collapseWs.induct) (auto split: if_splits)

lemma nodbl_collapseWs: "successively nodbl (collapseWs s)"
proof (induction s rule: collapseWs.induct)
  case 1
  show ?case by simp
next
  case (2 c r)
  show ?case
  proof (cases "isSpace c")
    case True
    let ?d = "dropWhile isSpace r"
    have eq: "collapseWs (c # r) = SP # collapseWs ?d" using True by simp
    have "nodbl SP (hd (collapseWs ?d))" if ne: "collapseWs ?d \<noteq> []"
    proof -
      from ne have d: "?d \<noteq> []" by (simp add: collapseWs_Nil_iff)
      then have "\<not> isSpace (hd ?d)" by (rule hd_dropWhile)
      moreover from d obtain x xs where "?d = x # xs" by (cases ?d) auto
      ultimately have "hd (collapseWs ?d) = hd ?d" by simp
      with \<open>\<not> isSpace (hd ?d)\<close> isSpace_SP show ?thesis by (auto simp: nodbl_def)
    qed
    with 2(1)[OF True] show ?thesis unfolding eq by (intro successively_ConsI)
  next
    case False
    then have eq: "collapseWs (c # r) = c # collapseWs r" by simp
    from False isSpace_SP have "c \<noteq> SP" by auto
    then have "nodbl c (hd (collapseWs r))" by (simp add: nodbl_def)
    with 2(2)[OF False] show ?thesis unfolding eq by (intro successively_ConsI)
  qed
qed

lemma collapseWs_id:
  assumes "\<And>c. c \<in> set s \<Longrightarrow> isSpace c \<Longrightarrow> c = SP" and "successively nodbl s"
  shows "collapseWs s = s"
  using assms
proof (induction s rule: collapseWs.induct)
  case 1
  show ?case by simp
next
  case (2 c r)
  from 2(4) have sr: "successively nodbl r" by (rule successively_tl)
  have pr: "\<And>x. x \<in> set r \<Longrightarrow> isSpace x \<Longrightarrow> x = SP" using 2(3) by simp
  show ?case
  proof (cases "isSpace c")
    case True
    with 2(3) have c: "c = SP" by simp
    have r: "dropWhile isSpace r = r"
    proof (cases r)
      case Nil
      then show ?thesis by simp
    next
      case (Cons x xs)
      from 2(4) have "nodbl c x" unfolding Cons by simp
      with c have "x \<noteq> SP" by (simp add: nodbl_def)
      moreover from pr Cons have "isSpace x \<longrightarrow> x = SP" by simp
      ultimately have "\<not> isSpace x" by blast
      with Cons show ?thesis by simp
    qed
    have "collapseWs (c # r) = SP # collapseWs (dropWhile isSpace r)"
      using True by simp
    also have "\<dots> = SP # collapseWs r" by (simp only: r)
    also have "\<dots> = SP # r" using 2(1)[OF True] pr sr r by simp
    finally show ?thesis using c by simp
  next
    case False
    have "collapseWs (c # r) = c # collapseWs r" using False by simp
    with 2(2)[OF False pr sr] show ?thesis by simp
  qed
qed

section \<open>The punctuation rule\<close>

lemma startsPunct_Cons:
  "startsPunct (c # r) = (if isSpace c then startsPunct r else isPunct c)"
  by (simp add: startsPunct_def)

lemma trimPunct_Cons:
  "trimPunct (c # r) =
     (if startsPunct (c # r)
      then hd (dropWhile isSpace (c # r)) #
           trimPunct (dropWhile isSpace (tl (dropWhile isSpace (c # r))))
      else c # trimPunct r)"
proof (cases "dropWhile isSpace (c # r)")
  case Nil
  then show ?thesis
    by (simp only: trimPunct.simps startsPunct_def list.case if_False)
next
  case (Cons p rest)
  then show ?thesis
    by (simp only: trimPunct.simps startsPunct_def list.case list.sel)
qed

lemma startsPunct_hd: "startsPunct s \<Longrightarrow> isPunct (hd (dropWhile isSpace s))"
  by (simp add: startsPunct_def split: list.splits)

lemma startsPunct_set: "startsPunct s \<Longrightarrow> hd (dropWhile isSpace s) \<in> set s"
proof -
  assume "startsPunct s"
  then have "dropWhile isSpace s \<noteq> []"
    by (cases "dropWhile isSpace s")
      (simp_all only: startsPunct_def list.case list.distinct not_False_eq_True)
  then have "hd (dropWhile isSpace s) \<in> set (dropWhile isSpace s)"
    by (rule hd_in_set)
  then show ?thesis by (rule set_dropWhileD)
qed

lemma trimPunct_Nil_iff: "trimPunct s = [] \<longleftrightarrow> s = []"
  by (cases s) (simp_all add: trimPunct_Cons del: trimPunct.simps(2))

lemma hd_trimPunct:
  "s \<noteq> [] \<Longrightarrow> hd (trimPunct s) = (if startsPunct s then hd (dropWhile isSpace s) else hd s)"
  by (cases s) (simp_all add: trimPunct_Cons del: trimPunct.simps)

lemma set_trimPunct: "set (trimPunct s) \<subseteq> set s"
proof (induction s rule: trimPunct.induct)
  case 1
  show ?case by simp
next
  case (2 c r)
  show ?case
  proof (cases "startsPunct (c # r)")
    case False
    then have "trimPunct (c # r) = c # trimPunct r"
      by (simp only: trimPunct_Cons if_False)
    moreover have "set (trimPunct r) \<subseteq> set r"
      using 2(1,3) False by (auto simp: startsPunct_def split: list.splits)
    ultimately show ?thesis by auto
  next
    case True
    let ?d = "dropWhile isSpace (c # r)"
    let ?e = "dropWhile isSpace (tl ?d)"
    from True obtain p rest where d: "?d = p # rest" and p: "isPunct p"
      by (auto simp: startsPunct_def split: list.splits)
    have eq: "trimPunct (c # r) = hd ?d # trimPunct ?e"
      using True by (simp only: trimPunct_Cons if_True)
    have "set (trimPunct ?e) \<subseteq> set ?e"
      using 2(2)[OF d p] d by simp
    also have "\<dots> \<subseteq> set (tl ?d)" by (auto dest: set_dropWhileD)
    also have "\<dots> \<subseteq> set ?d" using d by auto
    also have "\<dots> \<subseteq> set (c # r)" by (auto dest: set_dropWhileD)
    finally have "set (trimPunct ?e) \<subseteq> set (c # r)" .
    moreover have "hd ?d \<in> set (c # r)" using True by (rule startsPunct_set)
    ultimately show ?thesis unfolding eq by simp
  qed
qed

lemma tight_trimPunct: "successively tight (trimPunct s)"
proof (induction s rule: trimPunct.induct)
  case 1
  show ?case by simp
next
  case (2 c r)
  show ?case
  proof (cases "startsPunct (c # r)")
    case False
    then have eq: "trimPunct (c # r) = c # trimPunct r"
      by (simp only: trimPunct_Cons if_False)
    have ih: "successively tight (trimPunct r)"
      using 2(1,3) False by (auto simp: startsPunct_def split: list.splits)
    have "tight c (hd (trimPunct r))" if ne: "trimPunct r \<noteq> []"
    proof -
      from ne have r: "r \<noteq> []" by (simp add: trimPunct_Nil_iff)
      show ?thesis
      proof (cases "isSpace c")
        case True
        with False have nsp: "\<not> startsPunct r" by (simp add: startsPunct_Cons)
        with r have h: "hd (trimPunct r) = hd r" by (simp add: hd_trimPunct)
        have "\<not> isPunct (hd r)"
        proof
          assume pr: "isPunct (hd r)"
          then have "\<not> isSpace (hd r)" by (rule punct_not_space)
          with r have "dropWhile isSpace r = r" by (cases r) simp_all
          with pr r have "startsPunct r" by (cases r) (simp_all add: startsPunct_def)
          with nsp show False by simp
        qed
        with True h show ?thesis using punct_not_space[of c] by (auto simp: tight_def)
      next
        case nsc: False
        with False have "\<not> isPunct c" by (simp add: startsPunct_Cons)
        with nsc show ?thesis by (simp add: tight_def)
      qed
    qed
    with ih show ?thesis unfolding eq by (intro successively_ConsI)
  next
    case True
    let ?d = "dropWhile isSpace (c # r)"
    let ?e = "dropWhile isSpace (tl ?d)"
    from True obtain p rest where d: "?d = p # rest" and p: "isPunct p"
      by (auto simp: startsPunct_def split: list.splits)
    have eq: "trimPunct (c # r) = hd ?d # trimPunct ?e"
      using True by (simp only: trimPunct_Cons if_True)
    have ih: "successively tight (trimPunct ?e)"
      using 2(2)[OF d p] d by simp
    have "tight (hd ?d) (hd (trimPunct ?e))" if ne: "trimPunct ?e \<noteq> []"
    proof -
      from ne have e: "?e \<noteq> []" by (simp add: trimPunct_Nil_iff)
      then have nse: "\<not> isSpace (hd ?e)" by (rule hd_dropWhile)
      have "\<not> isSpace (hd (trimPunct ?e))"
      proof (cases "startsPunct ?e")
        case True
        then have "isPunct (hd (dropWhile isSpace ?e))" by (rule startsPunct_hd)
        then have "\<not> isSpace (hd (dropWhile isSpace ?e))" by (rule punct_not_space)
        with True e show ?thesis by (simp add: hd_trimPunct)
      next
        case False
        with e nse show ?thesis by (simp add: hd_trimPunct)
      qed
      moreover have "\<not> isSpace (hd ?d)"
        using d p punct_not_space by simp
      ultimately show ?thesis by (simp add: tight_def)
    qed
    with ih show ?thesis unfolding eq by (intro successively_ConsI)
  qed
qed

lemma nodbl_trimPunct: "successively nodbl s \<Longrightarrow> successively nodbl (trimPunct s)"
proof (induction s rule: trimPunct.induct)
  case 1
  show ?case by simp
next
  case (2 c r)
  show ?case
  proof (cases "startsPunct (c # r)")
    case False
    then have eq: "trimPunct (c # r) = c # trimPunct r"
      by (simp only: trimPunct_Cons if_False)
    from 2(4) have sr: "successively nodbl r" by (rule successively_tl)
    have ih: "successively nodbl (trimPunct r)"
      using 2(1,3) False sr by (auto simp: startsPunct_def split: list.splits)
    have "nodbl c (hd (trimPunct r))" if ne: "trimPunct r \<noteq> []"
    proof -
      from ne have r: "r \<noteq> []" by (simp add: trimPunct_Nil_iff)
      show ?thesis
      proof (cases "startsPunct r")
        case True
        then have "isPunct (hd (dropWhile isSpace r))" by (rule startsPunct_hd)
        then have "hd (dropWhile isSpace r) \<noteq> SP" by (rule punct_not_SP)
        with True r show ?thesis by (simp add: hd_trimPunct nodbl_def)
      next
        case nsp: False
        with r have "hd (trimPunct r) = hd r" by (simp add: hd_trimPunct)
        with successively_hd[OF 2(4) r] show ?thesis by simp
      qed
    qed
    with ih show ?thesis unfolding eq by (intro successively_ConsI)
  next
    case True
    let ?d = "dropWhile isSpace (c # r)"
    let ?e = "dropWhile isSpace (tl ?d)"
    from True obtain p rest where d: "?d = p # rest" and p: "isPunct p"
      by (auto simp: startsPunct_def split: list.splits)
    have eq: "trimPunct (c # r) = hd ?d # trimPunct ?e"
      using True by (simp only: trimPunct_Cons if_True)
    from 2(4) have "successively nodbl ?d" by (rule successively_dropWhile)
    then have "successively nodbl rest" unfolding d by (rule successively_tl)
    then have "successively nodbl (dropWhile isSpace rest)" by (rule successively_dropWhile)
    then have ih: "successively nodbl (trimPunct ?e)"
      using 2(2)[OF d p] d by simp
    have "hd ?d \<noteq> SP" using d p punct_not_SP by simp
    then have "nodbl (hd ?d) (hd (trimPunct ?e))" by (simp add: nodbl_def)
    with ih show ?thesis unfolding eq by (intro successively_ConsI)
  qed
qed

lemma tight_space_run:
  "successively tight (c # r) \<Longrightarrow> isSpace c \<Longrightarrow> \<not> startsPunct r"
proof (induction r arbitrary: c)
  case Nil
  show ?case by (simp add: startsPunct_def)
next
  case (Cons x xs)
  from Cons.prems(1) have t: "tight c x" and s: "successively tight (x # xs)"
    by simp_all
  show ?case
  proof (cases "isSpace x")
    case True
    with Cons.IH[OF s] show ?thesis by (simp add: startsPunct_Cons)
  next
    case False
    from t Cons.prems(2) have "\<not> isPunct x" by (simp add: tight_def)
    with False show ?thesis by (simp add: startsPunct_Cons)
  qed
qed

lemma trimPunct_id: "successively tight s \<Longrightarrow> trimPunct s = s"
proof (induction s)
  case Nil
  show ?case by simp
next
  case (Cons c r)
  from Cons.prems have sr: "successively tight r" by (rule successively_tl)
  have ih: "trimPunct r = r" using Cons.IH[OF sr] .
  show ?case
  proof (cases "isPunct c")
    case True
    then have nsc: "\<not> isSpace c" by (rule punct_not_space)
    with True have sp: "startsPunct (c # r)" by (simp add: startsPunct_Cons)
    have d: "dropWhile isSpace (c # r) = c # r" using nsc by simp
    have "dropWhile isSpace r = r"
    proof (cases r)
      case Nil
      then show ?thesis by simp
    next
      case (Cons x xs)
      with Cons.prems have "tight c x" by simp
      with True have "\<not> isSpace x" by (simp add: tight_def)
      with Cons show ?thesis by simp
    qed
    with sp d ih show ?thesis by (simp add: trimPunct_Cons del: trimPunct.simps)
  next
    case False
    have "\<not> startsPunct (c # r)"
    proof (cases "isSpace c")
      case True
      with tight_space_run[OF Cons.prems] show ?thesis by (simp add: startsPunct_Cons)
    next
      case nsc: False
      with False show ?thesis by (simp add: startsPunct_Cons)
    qed
    with ih show ?thesis by (simp add: trimPunct_Cons del: trimPunct.simps)
  qed
qed

section \<open>The semicolon rule\<close>

lemma dropSemi_Nil_iff: "dropSemi s = [] \<longleftrightarrow> s = []"
  by (cases s rule: dropSemi.cases) simp_all

lemma hd_dropSemi:
  "hd (dropSemi (a # r)) = (if a = SEMI \<and> r \<noteq> [] \<and> hd r = RBRACE then RBRACE else a)"
  by (cases r) simp_all

lemma set_dropSemi: "set (dropSemi s) \<subseteq> set s"
  by (induction s rule: dropSemi.induct) auto

lemma nodbl_dropSemi: "successively nodbl s \<Longrightarrow> successively nodbl (dropSemi s)"
proof (induction s rule: dropSemi.induct)
  case (1 a b r)
  from 1(3) have ab: "nodbl a b" and sbr: "successively nodbl (b # r)" by simp_all
  from sbr have sr: "successively nodbl r" by (rule successively_tl)
  show ?case
  proof (cases "a = SEMI \<and> b = RBRACE")
    case True
    then have eq: "dropSemi (a # b # r) = RBRACE # dropSemi r" by simp
    have ih: "successively nodbl (dropSemi r)" using 1(1)[OF True sr] .
    have "nodbl RBRACE (hd (dropSemi r))" by (simp add: nodbl_def)
    with ih show ?thesis unfolding eq by (intro successively_ConsI)
  next
    case False
    then have eq: "dropSemi (a # b # r) = a # dropSemi (b # r)" by simp
    have ih: "successively nodbl (dropSemi (b # r))" using 1(2)[OF False sbr] .
    have "nodbl a (hd (dropSemi (b # r)))"
      using ab by (simp add: hd_dropSemi nodbl_def del: dropSemi.simps)
    with ih show ?thesis unfolding eq by (intro successively_ConsI)
  qed
qed simp_all

lemma tight_dropSemi: "successively tight s \<Longrightarrow> successively tight (dropSemi s)"
proof (induction s rule: dropSemi.induct)
  case (1 a b r)
  from 1(3) have ab: "tight a b" and sbr: "successively tight (b # r)" by simp_all
  from sbr have sr: "successively tight r" by (rule successively_tl)
  show ?case
  proof (cases "a = SEMI \<and> b = RBRACE")
    case True
    then have eq: "dropSemi (a # b # r) = RBRACE # dropSemi r" by simp
    have ih: "successively tight (dropSemi r)" using 1(1)[OF True sr] .
    have "tight RBRACE (hd (dropSemi r))" if ne: "dropSemi r \<noteq> []"
    proof -
      from ne obtain x xs where r: "r = x # xs" by (cases r) auto
      from sbr r have "tight b x" by simp
      with True have "\<not> isSpace x" using isPunct_RBRACE by (simp add: tight_def)
      moreover have "\<not> isSpace RBRACE" using isPunct_RBRACE by (rule punct_not_space)
      ultimately show ?thesis unfolding r
        by (simp add: hd_dropSemi tight_def del: dropSemi.simps)
    qed
    with ih show ?thesis unfolding eq by (intro successively_ConsI)
  next
    case False
    then have eq: "dropSemi (a # b # r) = a # dropSemi (b # r)" by simp
    have ih: "successively tight (dropSemi (b # r))" using 1(2)[OF False sbr] .
    have "tight a (hd (dropSemi (b # r)))"
    proof (cases "b = SEMI \<and> r \<noteq> [] \<and> hd r = RBRACE")
      case True
      with ab have "\<not> isSpace a" using isPunct_SEMI by (auto simp: tight_def)
      moreover have "\<not> isSpace RBRACE" using isPunct_RBRACE by (rule punct_not_space)
      ultimately have "tight a RBRACE" by (simp add: tight_def)
      with True show ?thesis by (simp add: hd_dropSemi del: dropSemi.simps)
    next
      case nb: False
      then have "hd (dropSemi (b # r)) = b" by (simp only: hd_dropSemi if_False)
      with ab show ?thesis by simp
    qed
    with ih show ?thesis unfolding eq by (intro successively_ConsI)
  qed
qed simp_all

lemma dropSemi_id: "successively noSemiBrace s \<Longrightarrow> dropSemi s = s"
proof (induction s rule: dropSemi.induct)
  case (1 a b r)
  from 1(3) have ab: "\<not> (a = SEMI \<and> b = RBRACE)" and sbr: "successively noSemiBrace (b # r)"
    by (simp_all add: noSemiBrace_def)
  from 1(2)[OF ab sbr] ab show ?case by simp
qed simp_all

section \<open>What every minified text satisfies\<close>

lemma plain_minifyCss: "c \<in> set (minifyCss T) \<Longrightarrow> isSpace c \<Longrightarrow> c = SP"
proof -
  assume c: "c \<in> set (minifyCss T)" and s: "isSpace c"
  from c have "c \<in> set (trimPunct (collapseWs (stripComments T)))"
    unfolding minifyCss_def using set_dropSemi by blast
  then have "c \<in> set (collapseWs (stripComments T))"
    using set_trimPunct by blast
  then show "c = SP" using s by (rule plain_collapseWs)
qed

lemma nodbl_minifyCss: "successively nodbl (minifyCss T)"
  unfolding minifyCss_def
  by (intro nodbl_dropSemi nodbl_trimPunct nodbl_collapseWs)

lemma tight_minifyCss: "successively tight (minifyCss T)"
  unfolding minifyCss_def by (intro tight_dropSemi tight_trimPunct)

section \<open>The comment rule\<close>

lemma closeComment_None: "\<not> occurs2 STAR SLASH s \<Longrightarrow> closeComment s = None"
  by (induction s rule: closeComment.induct) auto

lemma closeComment_occurs: "closeComment s = None \<Longrightarrow> \<not> occurs2 STAR SLASH s"
  by (induction s rule: closeComment.induct) (auto split: if_splits)

lemma closeComment_first:
  "\<not> occurs2 STAR SLASH c \<Longrightarrow> closeComment (c @ STAR # SLASH # t) = Some t"
proof (induction c rule: closeComment.induct)
  case (1 a b r)
  from 1(2) have ab: "\<not> (a = STAR \<and> b = SLASH)" and r: "\<not> occurs2 STAR SLASH (b # r)"
    by simp_all
  from 1(1)[OF ab r] ab show ?case by simp
qed simp_all

lemma closeComment_Some:
  "closeComment s = Some t \<Longrightarrow> \<exists>c. s = c @ STAR # SLASH # t \<and> \<not> occurs2 STAR SLASH c"
proof (induction s rule: closeComment.induct)
  case (1 a b r)
  show ?case
  proof (cases "a = STAR \<and> b = SLASH")
    case True
    with 1(2) have "a # b # r = [] @ STAR # SLASH # t \<and> \<not> occurs2 STAR SLASH []" by simp
    then show ?thesis by blast
  next
    case False
    with 1(2) have "closeComment (b # r) = Some t" by simp
    from 1(1)[OF False this] obtain c
      where c: "b # r = c @ STAR # SLASH # t" and n: "\<not> occurs2 STAR SLASH c" by blast
    have "\<not> occurs2 STAR SLASH (a # c)"
    proof (cases c)
      case Nil
      then show ?thesis by simp
    next
      case (Cons x xs)
      with c have "x = b" by simp
      with Cons n False show ?thesis by simp
    qed
    moreover from c have "a # b # r = (a # c) @ STAR # SLASH # t" by simp
    ultimately show ?thesis by blast
  qed
qed simp_all

lemma matchComment_Cons:
  "matchComment (c # r) = (if c = SLASH \<and> r \<noteq> [] \<and> hd r = STAR then closeComment (tl r) else None)"
  by (cases r) (simp_all add: matchComment_def)

lemma stripComments_Cons:
  "matchComment (c # r) = None \<Longrightarrow> stripComments (c # r) = c # stripComments r"
  by simp

lemma stripComments_id: "\<not> hasComment s \<Longrightarrow> stripComments s = s"
  by (induction s) simp_all

lemma length_closeComment: "closeComment s = Some t \<Longrightarrow> length t < length s"
  by (induction s rule: closeComment.induct) (auto split: if_splits)

lemma length_matchComment: "matchComment s = Some t \<Longrightarrow> length t < length s"
proof (cases s)
  case Nil
  assume "matchComment s = Some t"
  with Nil show ?thesis by (simp add: matchComment_def)
next
  case (Cons c r)
  assume "matchComment s = Some t"
  with Cons have r: "r \<noteq> []" and cl: "closeComment (tl r) = Some t"
    by (auto simp: matchComment_Cons split: if_splits)
  from cl have "length t < length (tl r)" by (rule length_closeComment)
  with Cons show ?thesis by simp
qed

lemma length_stripComments: "length (stripComments s) \<le> length s"
proof (induction s rule: stripComments.induct)
  case 1
  show ?case by simp
next
  case (2 c r)
  show ?case
  proof (cases "matchComment (c # r)")
    case None
    with 2(1) show ?thesis by simp
  next
    case (Some rest)
    with 2(2) have "length (stripComments rest) \<le> length rest" by simp
    moreover from Some have "length rest < length (c # r)" by (rule length_matchComment)
    ultimately show ?thesis using Some by simp
  qed
qed

lemma stripComments_shorter: "hasComment s \<Longrightarrow> length (stripComments s) < length s"
proof (induction s)
  case Nil
  then show ?case by simp
next
  case (Cons c r)
  show ?case
  proof (cases "matchComment (c # r)")
    case None
    with Cons show ?thesis by simp
  next
    case (Some rest)
    have "length (stripComments rest) \<le> length rest" by (rule length_stripComments)
    moreover from Some have "length rest < length (c # r)" by (rule length_matchComment)
    ultimately show ?thesis using Some by simp
  qed
qed

lemma stripComments_id_iff: "stripComments s = s \<longleftrightarrow> \<not> hasComment s"
  using stripComments_id stripComments_shorter by fastforce

lemma hasComment_iff:
  "hasComment s \<longleftrightarrow> (\<exists>p c t. s = p @ js ''/*'' @ c @ js ''*/'' @ t)"
proof
  assume "hasComment s"
  then show "\<exists>p c t. s = p @ js ''/*'' @ c @ js ''*/'' @ t"
  proof (induction s)
    case Nil
    then show ?case by simp
  next
    case (Cons x r)
    show ?case
    proof (cases "matchComment (x # r)")
      case None
      with Cons.prems have "hasComment r" by simp
      from Cons.IH[OF this] obtain p c t where "r = p @ js ''/*'' @ c @ js ''*/'' @ t" by blast
      then have "x # r = (x # p) @ js ''/*'' @ c @ js ''*/'' @ t" by simp
      then show ?thesis by blast
    next
      case (Some rest)
      then obtain r' where r: "x # r = SLASH # STAR # r'" and cl: "closeComment r' = Some rest"
        by (cases r) (auto simp: matchComment_def split: if_splits)
      from closeComment_Some[OF cl] obtain c where "r' = c @ STAR # SLASH # rest" by blast
      with r have "x # r = [] @ js ''/*'' @ c @ js ''*/'' @ rest" by (simp add: js_def)
      then show ?thesis by blast
    qed
  qed
next
  assume "\<exists>p c t. s = p @ js ''/*'' @ c @ js ''*/'' @ t"
  then obtain p c t where s: "s = p @ SLASH # STAR # c @ STAR # SLASH # t"
    by (auto simp: js_def)
  have "occurs2 STAR SLASH (c @ STAR # SLASH # t)"
    unfolding occurs2_iff by auto
  then have "closeComment (c @ STAR # SLASH # t) \<noteq> None"
    using closeComment_occurs by blast
  then have "hasComment (SLASH # STAR # c @ STAR # SLASH # t)"
    by (simp add: matchComment_def)
  then show "hasComment s" unfolding s by (induction p) simp_all
qed


lemma no_open_strip:
  "\<not> occurs2 SLASH STAR a \<Longrightarrow> stripComments (a @ SLASH # STAR # b) = a @ stripComments (SLASH # STAR # b)"
proof (induction a)
  case Nil
  show ?case by simp
next
  case (Cons x xs)
  from Cons.prems have xs: "\<not> occurs2 SLASH STAR xs" by (rule occurs2_Cons)
  have "matchComment (x # xs @ SLASH # STAR # b) = None"
  proof (cases xs)
    case Nil
    then show ?thesis by (simp add: matchComment_def)
  next
    case (Cons y ys)
    with Cons.prems have "\<not> (x = SLASH \<and> y = STAR)" by simp
    with Cons show ?thesis by (auto simp: matchComment_def)
  qed
  then have "stripComments (x # xs @ SLASH # STAR # b) = x # stripComments (xs @ SLASH # STAR # b)"
    by (rule stripComments_Cons)
  with Cons.IH[OF xs] show ?case by simp
qed

lemma no_close_strip: "\<not> occurs2 STAR SLASH s \<Longrightarrow> stripComments s = s"
proof (induction s)
  case Nil
  show ?case by simp
next
  case (Cons x xs)
  from Cons.prems have xs: "\<not> occurs2 STAR SLASH xs" by (rule occurs2_Cons)
  have "matchComment (x # xs) = None"
  proof (cases "x = SLASH \<and> xs \<noteq> [] \<and> hd xs = STAR")
    case True
    then obtain ys where ys: "xs = STAR # ys" by (cases xs) auto
    with xs have "\<not> occurs2 STAR SLASH ys" using occurs2_Cons by blast
    then have "closeComment ys = None" by (rule closeComment_None)
    with True ys show ?thesis by (simp add: matchComment_def)
  next
    case False
    then show ?thesis by (simp only: matchComment_Cons if_False)
  qed
  then have "stripComments (x # xs) = x # stripComments xs" by (rule stripComments_Cons)
  with Cons.IH[OF xs] show ?case by simp
qed

lemma unclosed_kept:
  assumes "\<not> occurs2 SLASH STAR a" and "\<not> occurs2 STAR SLASH b"
  shows "stripComments (a @ js ''/*'' @ b) = a @ js ''/*'' @ b"
proof -
  from assms(2) have cl: "closeComment b = None" by (rule closeComment_None)
  have "stripComments (SLASH # STAR # b) = SLASH # stripComments (STAR # b)"
    using cl by (simp add: matchComment_def)
  also have "stripComments (STAR # b) = STAR # stripComments b"
    by (simp add: matchComment_Cons)
  also have "stripComments b = b" using assms(2) by (rule no_close_strip)
  finally have "stripComments (SLASH # STAR # b) = SLASH # STAR # b" .
  with no_open_strip[OF assms(1), of b] show ?thesis by (simp add: js_def)
qed

lemma closed_removed:
  assumes "\<not> occurs2 SLASH STAR a" and "\<not> occurs2 STAR SLASH c"
  shows "stripComments (a @ js ''/*'' @ c @ js ''*/'' @ b) = a @ stripComments b"
proof -
  have "closeComment (c @ STAR # SLASH # b) = Some b"
    using assms(2) by (rule closeComment_first)
  then have "stripComments (SLASH # STAR # c @ STAR # SLASH # b) = stripComments b"
    by (simp add: matchComment_def)
  with no_open_strip[OF assms(1), of "c @ STAR # SLASH # b"] show ?thesis
    by (simp add: js_def)
qed

section \<open>Lines and line numbers\<close>

lemma splitNl_Nil: "splitNl [] = [[]]"
  by (simp add: splitNl.simps)

lemma splitNl_NL: "splitNl (NL # r) = [] # splitNl r"
  by (subst splitNl.simps) simp

lemma splitNl_not_Nil: "splitNl s \<noteq> []"
  by (subst splitNl.simps) (simp split: list.splits)

lemma splitNl_other:
  "c \<noteq> NL \<Longrightarrow> splitNl (c # r) = (c # hd (splitNl r)) # tl (splitNl r)"
proof -
  assume c: "c \<noteq> NL"
  show ?thesis
  proof (cases "dropWhile (\<lambda>c. c \<noteq> NL) r")
    case Nil
    then have "splitNl r = [r]" by (subst splitNl.simps) (simp only: list.case)
    moreover from Nil c have "splitNl (c # r) = [c # r]"
      by (subst splitNl.simps) (simp del: dropWhile_eq_Nil_conv)
    ultimately show ?thesis by simp
  next
    case (Cons nl rest)
    then have "splitNl r = takeWhile (\<lambda>c. c \<noteq> NL) r # splitNl rest"
      by (subst splitNl.simps) (simp only: list.case)
    moreover from Cons c have "splitNl (c # r) = (c # takeWhile (\<lambda>c. c \<noteq> NL) r) # splitNl rest"
      by (subst splitNl.simps) simp
    ultimately show ?thesis by simp
  qed
qed

lemma length_splitNl: "length (splitNl s) = Suc (count_list s NL)"
proof (induction s)
  case Nil
  show ?case by (simp add: splitNl_Nil)
next
  case (Cons c r)
  show ?case
  proof (cases "c = NL")
    case True
    with Cons show ?thesis by (simp add: splitNl_NL)
  next
    case False
    have "length (tl (splitNl r)) = length (splitNl r) - 1" by simp
    with False Cons show ?thesis by (simp add: splitNl_other)
  qed
qed

lemma splitNl_snoc_NL: "splitNl (s @ [NL]) = splitNl s @ [[]]"
proof (induction s)
  case Nil
  show ?case by (simp add: splitNl_NL splitNl_Nil)
next
  case (Cons c r)
  show ?case
  proof (cases "c = NL")
    case True
    with Cons show ?thesis by (simp add: splitNl_NL)
  next
    case False
    have ne: "splitNl r \<noteq> []" by (rule splitNl_not_Nil)
    from False have "splitNl ((c # r) @ [NL]) = (c # hd (splitNl (r @ [NL]))) # tl (splitNl (r @ [NL]))"
      by (simp add: splitNl_other)
    also have "\<dots> = (c # hd (splitNl r)) # tl (splitNl r) @ [[]]"
      using Cons ne by simp
    also have "\<dots> = splitNl (c # r) @ [[]]" using False by (simp add: splitNl_other)
    finally show ?thesis .
  qed
qed

lemma joinNl_Cons_Cons: "xs \<noteq> [] \<Longrightarrow> joinNl ((c # x) # tl xs) = c # joinNl (x # tl xs)"
  by (cases "tl xs") simp_all

lemma joinNl_Nil_Cons: "xs \<noteq> [] \<Longrightarrow> joinNl ([] # xs) = NL # joinNl xs"
  by (cases xs) simp_all

lemma joinNl_splitNl: "joinNl (splitNl s) = s"
proof (induction s)
  case Nil
  show ?case by (simp add: splitNl_Nil)
next
  case (Cons c r)
  have ne: "splitNl r \<noteq> []" by (rule splitNl_not_Nil)
  show ?case
  proof (cases "c = NL")
    case True
    with Cons ne show ?thesis by (simp add: splitNl_NL joinNl_Nil_Cons)
  next
    case False
    then have "joinNl (splitNl (c # r)) = joinNl ((c # hd (splitNl r)) # tl (splitNl r))"
      by (simp add: splitNl_other)
    also have "\<dots> = c # joinNl (hd (splitNl r) # tl (splitNl r))"
      using ne by (rule joinNl_Cons_Cons)
    also have "\<dots> = c # r" using ne Cons by simp
    finally show ?thesis .
  qed
qed

lemma originals: "map original (mappings (generateSourceMap T name)) = splitNl T"
proof -
  have "original \<circ> (\<lambda>(index, line).
      \<lparr>original = line, generated = digitsOf (index + 1) @ js '':0''\<rparr>) = snd"
    by (auto simp: fun_eq_iff)
  then show ?thesis by (simp add: generateSourceMap_def)
qed

lemma mappings_length: "length (mappings (generateSourceMap T name)) = length (splitNl T)"
  by (simp add: generateSourceMap_def)

lemma nth_mappings:
  "i < length (splitNl T) \<Longrightarrow> mappings (generateSourceMap T name) ! i =
     \<lparr>original = splitNl T ! i, generated = digitsOf (i + 1) @ js '':0''\<rparr>"
  by (simp add: generateSourceMap_def nth_enumerate_eq)


lemma digit_value: "d < 10 \<Longrightarrow> unat (of_nat (48 + d) :: cu) - 48 = d"
proof -
  assume "d < 10"
  then have "(48 + d) mod 2 ^ LENGTH(16) = 48 + d" by simp
  then have "unat (of_nat (48 + d) :: cu) = 48 + d" by (simp only: unat_of_nat)
  then show ?thesis by (simp only: add_diff_cancel_left')
qed

lemma decValue_snoc: "decValue (s @ [d]) = 10 * decValue s + (unat d - 48)"
  by (simp add: decValue_def)

lemma decValue_digitsOf: "decValue (digitsOf n) = n"
proof (induction n rule: digitsOf.induct)
  case (1 n)
  show ?case
  proof (cases "n < 10")
    case True
    then have "digitsOf n = [] @ [of_nat (48 + n)]" by (subst digitsOf.simps) simp
    then have "decValue (digitsOf n) = 10 * decValue [] + (unat (of_nat (48 + n) :: cu) - 48)"
      by (simp only: decValue_snoc)
    also have "\<dots> = n" using True by (simp only: digit_value) (simp add: decValue_def)
    finally show ?thesis .
  next
    case False
    have m: "n mod 10 < 10" by simp
    from False have "digitsOf n = digitsOf (n div 10) @ [of_nat (48 + n mod 10)]"
      by (subst digitsOf.simps) simp
    then have "decValue (digitsOf n) =
        10 * decValue (digitsOf (n div 10)) + (unat (of_nat (48 + n mod 10) :: cu) - 48)"
      by (simp only: decValue_snoc)
    also have "\<dots> = 10 * (n div 10) + n mod 10"
      by (simp only: digit_value[OF m] 1[OF False])
    finally show ?thesis by simp
  qed
qed

lemma digitsOf_digits: "d \<in> set (digitsOf n) \<Longrightarrow> d \<in> of_nat ` {48..57}"
proof (induction n rule: digitsOf.induct)
  case (1 n)
  show ?case
  proof (cases "n < 10")
    case True
    then have "digitsOf n = [of_nat (48 + n)]" by (subst digitsOf.simps) simp
    with 1(2) have "d = of_nat (48 + n)" by (simp del: of_nat_add)
    moreover from True have "48 + n \<in> {48..57}" by auto
    ultimately show ?thesis by (rule image_eqI)
  next
    case False
    then have "digitsOf n = digitsOf (n div 10) @ [of_nat (48 + n mod 10)]"
      by (subst digitsOf.simps) simp
    with 1(2) have "d \<in> set (digitsOf (n div 10)) \<or> d = of_nat (48 + n mod 10)"
      by (auto simp del: of_nat_add)
    then show ?thesis
    proof
      assume "d \<in> set (digitsOf (n div 10))"
      with 1(1)[OF False] show ?thesis .
    next
      assume "d = of_nat (48 + n mod 10)"
      moreover have "48 + n mod 10 \<in> {48..57}" by auto
      ultimately show ?thesis by (rule image_eqI)
    qed
  qed
qed

section \<open>The claims\<close>

subsection \<open>The minifier\<close>

text \<open>
  C1, as stated: \<open>minifyCss\<close> is idempotent, \<open>minifyCss (minifyCss T) = minifyCss T\<close>
  for every text \<open>T\<close>. It is not: taking the comment \<open>/**/\<close> out of \<open>//**/*x*/\<close>
  joins what is left into the new comment \<open>/*x*/\<close>, which the second run removes.
\<close>

theorem minify_twice_differs:
  "minifyCss (minifyCss (js ''//**/*x*/'')) \<noteq> minifyCss (js ''//**/*x*/'')"
  by (simp add: minifyCss_def matchComment_def isSpace_def isPunct_def js_def)

text \<open>
  C1, amended: \<open>minifyCss (minifyCss T) = minifyCss T\<close> for every text \<open>T\<close> whose
  minified text holds no complete comment \<open>/* ... */\<close> and no \<open>;}\<close>. On such a
  text the comment rule and the semicolon rule find nothing, and the white space rule
  and the punctuation rule never change a minified text.
\<close>

theorem minify_twice_same:
  assumes "\<not> hasComment (minifyCss T)" and "\<not> occurs2 SEMI RBRACE (minifyCss T)"
  shows "minifyCss (minifyCss T) = minifyCss T"
proof -
  let ?M = "minifyCss T"
  have 1: "stripComments ?M = ?M" using assms(1) by (rule stripComments_id)
  have 2: "collapseWs ?M = ?M"
    using plain_minifyCss nodbl_minifyCss by (rule collapseWs_id)
  have 3: "trimPunct ?M = ?M" using tight_minifyCss by (rule trimPunct_id)
  have "successively noSemiBrace ?M"
    using assms(2) by (simp add: occurs2_successively noSemiBrace_def[abs_def])
  then have 4: "dropSemi ?M = ?M" by (rule dropSemi_id)
  have "minifyCss ?M = dropSemi (trimPunct (collapseWs (stripComments ?M)))"
    by (simp only: minifyCss_def)
  also have "\<dots> = ?M" by (simp only: 1 2 3 4)
  finally show ?thesis .
qed

text \<open>
  C1, amended, at the text \<open>/* c */a { b : c ; }\<close>, whose minified text is
  \<open>a{b:c}\<close>.
\<close>

theorem minify_twice_same_witness:
  "\<not> hasComment (minifyCss (js ''/* c */a { b : c ; }''))
   \<and> \<not> occurs2 SEMI RBRACE (minifyCss (js ''/* c */a { b : c ; }''))
   \<and> minifyCss (js ''/* c */a { b : c ; }'') = js ''a{b:c}''
   \<and> minifyCss (minifyCss (js ''/* c */a { b : c ; }'')) = minifyCss (js ''/* c */a { b : c ; }'')"
proof -
  have m: "minifyCss (js ''/* c */a { b : c ; }'') = js ''a{b:c}''"
    by (simp add: minifyCss_def matchComment_def isSpace_def isPunct_def js_def)
  have h1: "\<not> hasComment (minifyCss (js ''/* c */a { b : c ; }''))"
    unfolding m by (simp add: matchComment_def js_def)
  have h2: "\<not> occurs2 SEMI RBRACE (minifyCss (js ''/* c */a { b : c ; }''))"
    unfolding m by (simp add: js_def)
  show ?thesis using h1 h2 m minify_twice_same [OF h1 h2] by simp
qed

text \<open>
  C2: the output of \<open>minifyCss\<close> never contains \<open>;}\<close>. The semicolon rule is one
  pass that takes a single semicolon from before each brace, so that of two semicolons
  before a brace one stays: \<open>a{b:c;;}\<close> becomes \<open>a{b:c;}\<close>.
\<close>

theorem minify_keeps_semi_brace:
  "minifyCss (js ''a{b:c;;}'') = js ''a{b:c;}''"
  by (simp add: minifyCss_def matchComment_def isSpace_def isPunct_def js_def)

text \<open>
  C3, as stated: when a \<open>/*\<close> of the input has no closing \<open>*/\<close> after it,
  everything from that \<open>/*\<close> to the end is absent from the output. It is not: the
  comment pattern needs the closing \<open>*/\<close>, and \<open>a/*b\<close> comes out as it is.
\<close>

theorem unclosed_comment_stays: "minifyCss (js ''a/*b'') = js ''a/*b''"
  by (simp add: minifyCss_def matchComment_def isSpace_def isPunct_def js_def)

text \<open>
  C3, amended: an unclosed comment is kept. For every input \<open>A /* B\<close> where \<open>A\<close>
  holds no \<open>/*\<close> and \<open>B\<close> no \<open>*/\<close>, the comment rule returns the input
  unchanged, so that \<open>minifyCss\<close> is the other three rules applied to the whole input,
  the text from \<open>/*\<close> on included.
\<close>

theorem unclosed_comment_kept:
  assumes "\<not> occurs2 SLASH STAR A" and "\<not> occurs2 STAR SLASH B"
  shows "stripComments (A @ js ''/*'' @ B) = A @ js ''/*'' @ B
    \<and> minifyCss (A @ js ''/*'' @ B) = dropSemi (trimPunct (collapseWs (A @ js ''/*'' @ B)))"
  using unclosed_kept[OF assms] by (simp add: minifyCss_def)

text \<open>C3, amended, at \<open>A\<close> = \<open>a { \<close> and \<open>B\<close> = \<open> b : c\<close>.\<close>

theorem unclosed_comment_kept_witness:
  "\<not> occurs2 SLASH STAR (js ''a { '') \<and> \<not> occurs2 STAR SLASH (js '' b : c'')
   \<and> stripComments (js ''a { '' @ js ''/*'' @ js '' b : c'') = js ''a { /* b : c''
   \<and> minifyCss (js ''a { '' @ js ''/*'' @ js '' b : c'') = js ''a{/* b:c''"
proof -
  have h1: "\<not> occurs2 SLASH STAR (js ''a { '')" by (simp add: js_def)
  have h2: "\<not> occurs2 STAR SLASH (js '' b : c'')" by (simp add: js_def)
  have "dropSemi (trimPunct (collapseWs (js ''a { '' @ js ''/*'' @ js '' b : c''))) = js ''a{/* b:c''"
    by (simp add: isSpace_def isPunct_def js_def)
  then show ?thesis using h1 h2 unclosed_comment_kept [OF h1 h2] by (simp add: js_def)
qed

text \<open>
  C4, as stated: for a text with a closed comment \<open>/* ... */\<close>, the output contains
  no occurrence of what is written inside the comment. It does when the same text also
  stands outside the comment: \<open>/*a*/a\<close> becomes \<open>a\<close>.
\<close>

theorem comment_text_remains: "minifyCss (js ''/*a*/a'') = js ''a''"
  by (simp add: minifyCss_def matchComment_def isSpace_def isPunct_def js_def)

text \<open>
  C4, amended: a closed comment is removed as a whole. For every input
  \<open>A /* C */ B\<close> where \<open>A\<close> holds no \<open>/*\<close> and \<open>C\<close> no \<open>*/\<close>, the comment
  rule leaves \<open>A\<close> followed by what it leaves of \<open>B\<close>, and \<open>minifyCss\<close> is the
  other three rules applied to that: the output is computed from \<open>A\<close> and \<open>B\<close> alone.
\<close>

theorem closed_comment_removed:
  assumes "\<not> occurs2 SLASH STAR A" and "\<not> occurs2 STAR SLASH C"
  shows "stripComments (A @ js ''/*'' @ C @ js ''*/'' @ B) = A @ stripComments B
    \<and> minifyCss (A @ js ''/*'' @ C @ js ''*/'' @ B) =
        dropSemi (trimPunct (collapseWs (A @ stripComments B)))"
  using closed_removed[OF assms] by (simp add: minifyCss_def)

text \<open>
  C4, amended, at \<open>A\<close> = \<open>a{\<close>, \<open>C\<close> = \<open> note \<close> and \<open>B\<close> = \<open>b:c}\<close>.
\<close>

theorem closed_comment_removed_witness:
  "\<not> occurs2 SLASH STAR (js ''a{'') \<and> \<not> occurs2 STAR SLASH (js '' note '')
   \<and> stripComments (js ''a{'' @ js ''/*'' @ js '' note '' @ js ''*/'' @ js ''b:c}'') = js ''a{b:c}''
   \<and> minifyCss (js ''a{'' @ js ''/*'' @ js '' note '' @ js ''*/'' @ js ''b:c}'') = js ''a{b:c}''"
proof -
  have h1: "\<not> occurs2 SLASH STAR (js ''a{'')" by (simp add: js_def)
  have h2: "\<not> occurs2 STAR SLASH (js '' note '')" by (simp add: js_def)
  have s: "stripComments (js ''b:c}'') = js ''b:c}''" by (simp add: matchComment_def js_def)
  have "dropSemi (trimPunct (collapseWs (js ''a{'' @ js ''b:c}''))) = js ''a{b:c}''"
    by (simp add: isSpace_def isPunct_def js_def)
  then show ?thesis using h1 h2 s closed_comment_removed [OF h1 h2, of "js ''b:c}''"]
    by (simp add: js_def)
qed

text \<open>
  C5: for every text \<open>T\<close>, the output of \<open>minifyCss\<close> never contains two spaces in
  a row, and never a line feed or a tab.
\<close>

theorem minify_spacing:
  "(\<nexists>p t. minifyCss T = p @ [SP, SP] @ t) \<and> NL \<notin> set (minifyCss T) \<and> TAB \<notin> set (minifyCss T)"
proof (intro conjI)
  have "\<not> occurs2 SP SP (minifyCss T)"
    using nodbl_minifyCss[of T] by (simp add: occurs2_successively nodbl_def[abs_def])
  then show "\<nexists>p t. minifyCss T = p @ [SP, SP] @ t" unfolding occurs2_iff .
  show "NL \<notin> set (minifyCss T)"
  proof
    assume "NL \<in> set (minifyCss T)"
    moreover have "isSpace NL" by (simp add: isSpace_def)
    ultimately have "NL = SP" by (rule plain_minifyCss)
    then show False by simp
  qed
  show "TAB \<notin> set (minifyCss T)"
  proof
    assume "TAB \<in> set (minifyCss T)"
    moreover have "isSpace TAB" by (simp add: isSpace_def)
    ultimately have "TAB = SP" by (rule plain_minifyCss)
    then show False by simp
  qed
qed

text \<open>C5 at a text with two spaces, a line feed and a tab.\<close>

theorem minify_spacing_witness:
  "minifyCss (js ''a  b'' @ [NL, TAB] @ js ''c'') = js ''a b c''
   \<and> (\<nexists>p t. js ''a b c'' = p @ [SP, SP] @ t) \<and> NL \<notin> set (js ''a b c'') \<and> TAB \<notin> set (js ''a b c'')"
proof -
  have m: "minifyCss (js ''a  b'' @ [NL, TAB] @ js ''c'') = js ''a b c''"
    by (simp add: minifyCss_def matchComment_def isSpace_def isPunct_def js_def)
  show ?thesis using m minify_spacing [of "js ''a  b'' @ [NL, TAB] @ js ''c''"]
    by (simp only: m) simp
qed

text \<open>
  C6: for every text \<open>T\<close>, the output of \<open>minifyCss\<close> never contains a space
  right before or right after one of \<open>{\<close>, \<open>}\<close>, \<open>:\<close>, \<open>;\<close>.
\<close>

theorem minify_tight:
  "\<nexists>p c t. isPunct c \<and> (minifyCss T = p @ [SP, c] @ t \<or> minifyCss T = p @ [c, SP] @ t)"
proof
  assume "\<exists>p c t. isPunct c \<and> (minifyCss T = p @ [SP, c] @ t \<or> minifyCss T = p @ [c, SP] @ t)"
  then obtain p c t where c: "isPunct c"
    and e: "minifyCss T = p @ [SP, c] @ t \<or> minifyCss T = p @ [c, SP] @ t" by blast
  from e show False
  proof
    assume "minifyCss T = p @ [SP, c] @ t"
    with tight_minifyCss[of T] have "successively tight (p @ SP # c # t)" by simp
    then have "tight SP c" by (rule successively_adjacent)
    with c isSpace_SP show False by (simp add: tight_def)
  next
    assume "minifyCss T = p @ [c, SP] @ t"
    with tight_minifyCss[of T] have "successively tight (p @ c # SP # t)" by simp
    then have "tight c SP" by (rule successively_adjacent)
    with c isSpace_SP show False by (simp add: tight_def)
  qed
qed

text \<open>C6 at a text with a space on both sides of each of them.\<close>

theorem minify_tight_witness:
  "minifyCss (js ''a { b : c ; d : e } f'') = js ''a{b:c;d:e}f''
   \<and> (\<nexists>p c t. isPunct c \<and> (js ''a{b:c;d:e}f'' = p @ [SP, c] @ t \<or> js ''a{b:c;d:e}f'' = p @ [c, SP] @ t))"
proof -
  have m: "minifyCss (js ''a { b : c ; d : e } f'') = js ''a{b:c;d:e}f''"
    by (simp add: minifyCss_def matchComment_def isSpace_def isPunct_def js_def)
  show ?thesis using m minify_tight [of "js ''a { b : c ; d : e } f''"]
    by (simp only: m) simp
qed

subsection \<open>The source map\<close>

text \<open>
  C7: for every text \<open>T\<close> and name, the map has as many entries in \<open>mappings\<close>
  as splitting \<open>T\<close> at the line feeds gives segments, which is one more than \<open>T\<close>
  has line feeds; a line feed at the end adds an empty last segment, and the empty text
  gives one entry.
\<close>

theorem mappings_count:
  "length (mappings (generateSourceMap T name)) = length (splitNl T)
   \<and> length (splitNl T) = Suc (count_list T NL)
   \<and> map original (mappings (generateSourceMap (T @ [NL]) name)) = splitNl T @ [[]]
   \<and> length (mappings (generateSourceMap [] name)) = 1"
  by (simp add: mappings_length length_splitNl originals splitNl_snoc_NL)

text \<open>C7 at the text of the two lines \<open>a\<close> and \<open>b\<close>, each ended by a line feed.\<close>

theorem mappings_count_witness:
  "splitNl (js ''a'' @ NL # js ''b'' @ [NL]) = [js ''a'', js ''b'', []]
   \<and> length (mappings (generateSourceMap (js ''a'' @ NL # js ''b'' @ [NL]) (js ''x.css''))) = 3"
proof -
  have "splitNl (js ''a'' @ NL # js ''b'' @ [NL]) = [js ''a'', js ''b'', []]"
    by (simp add: splitNl.simps js_def)
  then show ?thesis
    using mappings_count [of "js ''a'' @ NL # js ''b'' @ [NL]" "js ''x.css''"] by simp
qed

text \<open>
  C8: for every text \<open>T\<close> and name, the map has \<open>version\<close> 3, \<open>file\<close> the name,
  \<open>sources\<close> the name alone, and the entry at index \<open>i\<close> (from 0) has as
  \<open>generated\<close> the decimal digits of \<open>i + 1\<close> followed by \<open>:0\<close>.
\<close>

theorem map_fields:
  "version (generateSourceMap T name) = 3
   \<and> file (generateSourceMap T name) = name
   \<and> sources (generateSourceMap T name) = [name]
   \<and> (\<forall>i < length (mappings (generateSourceMap T name)).
        generated (mappings (generateSourceMap T name) ! i) = digitsOf (i + 1) @ js '':0''
        \<and> decValue (digitsOf (i + 1)) = i + 1)"
proof (intro conjI allI impI)
  fix i
  assume "i < length (mappings (generateSourceMap T name))"
  then have "i < length (splitNl T)" by (simp only: mappings_length)
  then show "generated (mappings (generateSourceMap T name) ! i) = digitsOf (i + 1) @ js '':0''"
    by (simp only: nth_mappings) simp
  show "decValue (digitsOf (i + 1)) = i + 1" by (rule decValue_digitsOf)
qed (simp_all add: generateSourceMap_def)

text \<open>C8 at the second entry of the map of a text of two lines.\<close>

theorem map_fields_witness:
  "(1::nat) < length (mappings (generateSourceMap (js ''a'' @ NL # js ''b'') (js ''x.css'')))
   \<and> generated (mappings (generateSourceMap (js ''a'' @ NL # js ''b'') (js ''x.css'')) ! 1) = js ''2:0''
   \<and> file (generateSourceMap (js ''a'' @ NL # js ''b'') (js ''x.css'')) = js ''x.css''"
proof -
  have l: "(1::nat) < length (mappings (generateSourceMap (js ''a'' @ NL # js ''b'') (js ''x.css'')))"
    by (simp add: mappings_length length_splitNl js_def)
  have d: "digitsOf (1 + 1) = js ''2''" by (simp add: digitsOf.simps js_def)
  show ?thesis
    using l d map_fields [of "js ''a'' @ NL # js ''b''" "js ''x.css''"]
    by (auto simp: js_def)
qed

text \<open>
  C10: for every text \<open>T\<close> and name, joining the \<open>original\<close> fields of the entries
  in order, with a line feed between two of them, gives \<open>T\<close> back.
\<close>

theorem originals_rejoin:
  "joinNl (map original (mappings (generateSourceMap T name))) = T"
  by (simp only: originals joinNl_splitNl)

text \<open>C10 at a text with an empty line and a line feed at the end.\<close>

theorem originals_rejoin_witness:
  "map original (mappings (generateSourceMap (js ''a'' @ [NL, NL] @ js ''b'' @ [NL]) (js ''x.css'')))
     = [js ''a'', [], js ''b'', []]
   \<and> joinNl [js ''a'', [], js ''b'', []] = js ''a'' @ [NL, NL] @ js ''b'' @ [NL]"
proof -
  have s: "map original (mappings (generateSourceMap (js ''a'' @ [NL, NL] @ js ''b'' @ [NL]) (js ''x.css'')))
     = [js ''a'', [], js ''b'', []]"
    by (simp add: originals splitNl.simps js_def)
  show ?thesis
    using s originals_rejoin [of "js ''a'' @ [NL, NL] @ js ''b'' @ [NL]" "js ''x.css''"]
    by (simp only: s)
qed

subsection \<open>The run\<close>

text \<open>
  C9: when the target directory does not exist, the run prints a diagnostic on standard
  error and processes nothing: it ends without an error, the file system is as it was,
  the one call of \<open>node:fs\<close> is the test whether the directory exists, and no file is
  read or written.
\<close>

theorem missing_directory:
  assumes "fs w rootDirectory = None"
  shows "startMinification stringify depth rootDirectory w =
     (None, w\<lparr>ops := ops w @ [Exists rootDirectory],
              stdout := stdout w @ [Starting rootDirectory],
              stderr := stderr w @ [MissingDir rootDirectory]\<rparr>)"
  using assms by (simp add: startMinification_def existsSync_def logged_def)

text \<open>C9 at a file system that holds a directory \<open>site\<close> and no \<open>nosite\<close>.\<close>

theorem missing_directory_witness:
  "fs \<lparr>fs = [[js ''site''] \<mapsto> Dir [js ''a.css''], [js ''site'', js ''a.css''] \<mapsto> File (js ''a { }'')],
       ops = [], stdout = [], stderr = []\<rparr> [js ''nosite''] = None
   \<and> startMinification (\<lambda>m. []) 8 [js ''nosite'']
       \<lparr>fs = [[js ''site''] \<mapsto> Dir [js ''a.css''], [js ''site'', js ''a.css''] \<mapsto> File (js ''a { }'')],
        ops = [], stdout = [], stderr = []\<rparr>
     = (None,
       \<lparr>fs = [[js ''site''] \<mapsto> Dir [js ''a.css''], [js ''site'', js ''a.css''] \<mapsto> File (js ''a { }'')],
        ops = [Exists [js ''nosite'']], stdout = [Starting [js ''nosite'']],
        stderr = [MissingDir [js ''nosite'']]\<rparr>)"
proof -
  have h: "fs \<lparr>fs = [[js ''site''] \<mapsto> Dir [js ''a.css''], [js ''site'', js ''a.css''] \<mapsto> File (js ''a { }'')],
       ops = [], stdout = [], stderr = []\<rparr> [js ''nosite''] = None"
    by (simp add: js_def)
  show ?thesis
    using h missing_directory [OF h, of "\<lambda>m. []" 8] by simp
qed

end
